theory Spec2Isabelle
  imports Main
begin

section \<open>Strings of the source language\<close>

text \<open>
  A JavaScript string is a sequence of UTF-16 code units. A code unit is modelled by its
  number (below 65536 for every string the program can receive), a string by the list of
  its code units; \<open>str\<close> turns an ASCII literal into such a list.
\<close>

type_synonym code_unit = nat
type_synonym jsstring = "code_unit list"

definition str :: "string \<Rightarrow> jsstring" where
  "str s = map of_char s"

definition hyphen :: code_unit where
  "hyphen = 45"

text \<open>The character class \<^verbatim>\<open>[a-z0-9]\<close> of the three regular expressions.\<close>

definition in_az09 :: "code_unit \<Rightarrow> bool" where
  "in_az09 c = ((97 \<le> c \<and> c \<le> 122) \<or> (48 \<le> c \<and> c \<le> 57))"

text \<open>
  \<^verbatim>\<open>String.prototype.toLowerCase\<close>, the built-in that \<open>generateSlug\<close> calls first. It
  maps \<^verbatim>\<open>A\<close>..\<^verbatim>\<open>Z\<close> to \<^verbatim>\<open>a\<close>..\<^verbatim>\<open>z\<close>, and two characters outside ASCII to text with an
  ASCII letter: U+0130 (capital I with dot above, 304) to \<^verbatim>\<open>i\<close> followed by U+0307 (775),
  and U+212A (the Kelvin sign, 8490) to \<^verbatim>\<open>k\<close>. Every other code unit has a lower-case
  form without any code unit of \<^verbatim>\<open>[a-z0-9]\<close>; it is left as it is here, which the
  replacement that follows in \<open>generateSlug\<close> cannot tell from its lower-case form,
  since both are runs outside \<^verbatim>\<open>[a-z0-9]\<close>.
\<close>

definition toLowerCase_unit :: "code_unit \<Rightarrow> jsstring" where
  "toLowerCase_unit c =
     (if 65 \<le> c \<and> c \<le> 90 then [c + 32]
      else if c = 304 then [105, 775]
      else if c = 8490 then [107]
      else [c])"

definition toLowerCase :: "jsstring \<Rightarrow> jsstring" where
  "toLowerCase s = concat (map toLowerCase_unit s)"

text \<open>
  \<^verbatim>\<open>s.replace(/C+/g, r)\<close> for a character class \<open>C\<close>, given as the predicate \<open>P\<close>: the
  scan goes from left to right, a match takes the whole run of \<open>P\<close> (the quantifier is
  greedy) and the scan goes on behind it.
\<close>

function replace_runs :: "(code_unit \<Rightarrow> bool) \<Rightarrow> jsstring \<Rightarrow> jsstring \<Rightarrow> jsstring" where
  "replace_runs P r [] = []"
| "replace_runs P r (c # cs) =
     (if P c then r @ replace_runs P r (dropWhile P cs) else c # replace_runs P r cs)"
  by pat_completeness auto
termination
  by (relation "measure (\<lambda>(P, r, s). length s)")
     (auto simp: length_dropWhile_le le_imp_less_Suc)

text \<open>
  \<^verbatim>\<open>s.replace(/^-+|-+$/g, "")\<close>. The first alternative matches only at the start of the
  string (\<open>at_start\<close>) and takes the leading run of hyphens; the second matches at a
  hyphen from which hyphens alone lead to the end of the string, and takes them all.
  Any other character is kept.
\<close>

function replace_edge_runs :: "bool \<Rightarrow> jsstring \<Rightarrow> jsstring" where
  "replace_edge_runs at_start [] = []"
| "replace_edge_runs at_start (c # cs) =
     (if c = hyphen \<and> at_start then replace_edge_runs False (dropWhile (\<lambda>d. d = hyphen) cs)
      else if c = hyphen \<and> list_all (\<lambda>d. d = hyphen) cs then []
      else c # replace_edge_runs False cs)"
  by pat_completeness auto
termination
  by (relation "measure (\<lambda>(b, s). length s)")
     (auto simp: length_dropWhile_le le_imp_less_Suc)

text \<open>
  The text of a number in a template literal, \<^verbatim>\<open>`${suffix}`\<close>: its decimal digits. The
  counter of the resolver is a JavaScript number that starts at 1 and grows by 1; it is
  modelled by a natural number (the two agree below \<open>2 ^ 53\<close>).
\<close>

function decimal :: "nat \<Rightarrow> jsstring" where
  "decimal n = (if n < 10 then [48 + n] else decimal (n div 10) @ [48 + n mod 10])"
  by pat_completeness auto
termination
  by (relation "measure id") auto

declare decimal.simps [simp del]


section \<open>Normalizer and validator\<close>

text \<open>
  \<^verbatim>\<open>name.toLowerCase().replace(/[^a-z0-9]+/g, "-").replace(/^-+|-+$/g, "").replace(/-+/g, "-")\<close>
\<close>

definition generateSlug :: "jsstring \<Rightarrow> jsstring" where
  "generateSlug name =
     replace_runs (\<lambda>c. c = hyphen) [hyphen]
       (replace_edge_runs True
         (replace_runs (\<lambda>c. \<not> in_az09 c) [hyphen] (toLowerCase name)))"

text \<open>
  The regular expression of the validator, as data: a character, a character class
  given by its ranges, a sequence, \<^verbatim>\<open>+\<close> and \<^verbatim>\<open>*\<close> (a non-capturing group only
  groups). \<open>matches r s\<close> says that the whole of \<open>s\<close> is a match of \<open>r\<close>, which is what
  the anchors \<^verbatim>\<open>^\<close> and \<^verbatim>\<open>$\<close> of \<open>slugRegex\<close> ask for.
\<close>

datatype regex =
  Chr code_unit
  | Range "(code_unit \<times> code_unit) list"
  | Seq regex regex
  | Plus regex
  | Star regex

definition in_ranges :: "(code_unit \<times> code_unit) list \<Rightarrow> code_unit \<Rightarrow> bool" where
  "in_ranges rs c = list_ex (\<lambda>(lo, hi). lo \<le> c \<and> c \<le> hi) rs"

inductive matches :: "regex \<Rightarrow> jsstring \<Rightarrow> bool" where
  Chr: "matches (Chr c) [c]"
| Range: "in_ranges rs c \<Longrightarrow> matches (Range rs) [c]"
| Seq: "matches r u \<Longrightarrow> matches q v \<Longrightarrow> matches (Seq r q) (u @ v)"
| Plus_one: "matches r u \<Longrightarrow> matches (Plus r) u"
| Plus_more: "matches r u \<Longrightarrow> matches (Plus r) v \<Longrightarrow> matches (Plus r) (u @ v)"
| Star_none: "matches (Star r) []"
| Star_more: "matches r u \<Longrightarrow> matches (Star r) v \<Longrightarrow> matches (Star r) (u @ v)"

text \<open>\<^verbatim>\<open>[a-z0-9]\<close>, and \<^verbatim>\<open>^[a-z0-9]+(?:-[a-z0-9]+)*$\<close>.\<close>

definition az09 :: regex where
  "az09 = Range [(97, 122), (48, 57)]"

definition slugRegex :: regex where
  "slugRegex = Seq (Plus az09) (Star (Seq (Chr 45) (Plus az09)))"

text \<open>
  \<^verbatim>\<open>slugRegex.test(slug)\<close>, computed. The matcher reads the string once; \<open>inseg\<close> says
  that at least one character of the current \<^verbatim>\<open>[a-z0-9]+\<close> has been read, so that the
  segment may end here: at the end of the string, or at a hyphen, after which a new
  segment has to start.
\<close>

fun slug_match :: "bool \<Rightarrow> jsstring \<Rightarrow> bool" where
  "slug_match inseg [] = inseg"
| "slug_match inseg (c # cs) =
     (if in_az09 c then slug_match True cs
      else if c = hyphen \<and> inseg then slug_match False cs
      else False)"

definition isValidSlug :: "jsstring \<Rightarrow> bool" where
  "isValidSlug slug = slug_match False slug"


section \<open>The uniqueness oracle and the resolver\<close>

text \<open>
  What \<^verbatim>\<open>client.from("components").select("id").eq("component_slug", slug)\<close> resolves
  to: the rows found (\<open>data\<close>, null when there are none to give) and the error of the
  query, if any. The source reads nothing else of the answer, and handles a failed query
  through \<open>error\<close> only.
\<close>

record query_result =
  data :: "nat list option"
  error :: "string option"

text \<open>
  The remote store is not part of the program. Its answer to a query may depend on
  everything asked before, so it is a function of the queries made so far and of the
  candidate asked about. The list of queries made is threaded through every operation
  that queries, and returned: it is what the store observes of the program.
\<close>

type_synonym uniqueness_oracle = "jsstring list \<Rightarrow> jsstring \<Rightarrow> query_result"

text \<open>
  \<open>checkSlugUnique\<close> behind its \<^verbatim>\<open>await\<close>: an error is logged to the console and
  answered by \<^verbatim>\<open>false\<close>; otherwise the answer is \<^verbatim>\<open>data?.length === 0\<close>, which is
  \<^verbatim>\<open>false\<close> for a null \<open>data\<close>.
\<close>

definition checkSlugUnique_settle :: "query_result \<Rightarrow> bool" where
  "checkSlugUnique_settle r =
     (if error r \<noteq> None then False
      else (case data r of None \<Rightarrow> False | Some rows \<Rightarrow> length rows = 0))"

definition checkSlugUnique ::
  "uniqueness_oracle \<Rightarrow> jsstring \<Rightarrow> jsstring list \<Rightarrow> bool \<times> jsstring list" where
  "checkSlugUnique client slug qs = (checkSlugUnique_settle (client qs slug), qs @ [slug])"

text \<open>
  The loop \<^verbatim>\<open>while (!isUnique) { ... }\<close> of \<open>generateUniqueSlug\<close>, on its variables
  \<open>newSlug\<close>, \<open>isUnique\<close> and \<open>suffix\<close>. Nothing in the source bounds it, so it is a
  partial function: \<open>None\<close> is the call that never returns.
\<close>

partial_function (option) generateUniqueSlug_while ::
  "uniqueness_oracle \<Rightarrow> jsstring \<Rightarrow> jsstring \<Rightarrow> bool \<Rightarrow> nat \<Rightarrow> jsstring list \<Rightarrow>
   (jsstring \<times> jsstring list) option" where
  "generateUniqueSlug_while client baseName newSlug isUnique suffix qs =
     (if \<not> isUnique then
        (let newSlug' = generateSlug baseName @ hyphen # decimal suffix;
             chk = checkSlugUnique client newSlug' qs
         in generateUniqueSlug_while client baseName newSlug' (fst chk) (suffix + 1) (snd chk))
      else Some (newSlug, qs))"

declare generateUniqueSlug_while.simps [code]

text \<open>The result is the slug returned, with the queries the call has made, in order.\<close>

definition generateUniqueSlug ::
  "uniqueness_oracle \<Rightarrow> jsstring \<Rightarrow> (jsstring \<times> jsstring list) option" where
  "generateUniqueSlug client baseName =
     (let newSlug = generateSlug baseName;
          chk = checkSlugUnique client newSlug []
      in generateUniqueSlug_while client baseName newSlug (fst chk) 1 (snd chk))"


section \<open>The interactive availability checker\<close>

text \<open>
  The three atoms \<open>slugAvailableAtom\<close>, \<open>slugCheckingAtom\<close> and \<open>slugErrorAtom\<close> are
  created once, when the module is loaded, with the values of \<open>initial_atoms\<close>. The
  record is the part of the store that holds them.
\<close>

record atoms =
  slugAvailable :: "bool option"
  slugChecking :: bool
  slugError :: "jsstring option"

definition initial_atoms :: atoms where
  "initial_atoms = \<lparr>slugAvailable = None, slugChecking = False, slugError = None\<rparr>"

text \<open>
  \<open>checkSlug\<close> is an async function with one \<^verbatim>\<open>await\<close>. \<open>checkSlug_begin\<close> is the
  part that runs when it is called: for an invalid slug that is the whole body, for a
  valid one it stops at the query (the flag returned says so). \<open>checkSlug_resume\<close> is
  the part that runs when the answer of \<open>checkSlugUnique\<close> is there.
\<close>

definition checkSlug_begin :: "jsstring \<Rightarrow> atoms \<Rightarrow> bool \<times> atoms" where
  "checkSlug_begin slug st =
     (let st = st\<lparr>slugChecking := True\<rparr>;
          st = st\<lparr>slugError := None\<rparr>
      in if \<not> isValidSlug slug then
           (let st = st\<lparr>slugAvailable := Some False\<rparr>;
                st = st\<lparr>slugError := Some (str ''Invalid slug format'')\<rparr>
            in (False, st\<lparr>slugChecking := False\<rparr>))
         else (True, st))"

definition checkSlug_resume :: "bool \<Rightarrow> atoms \<Rightarrow> atoms" where
  "checkSlug_resume isUnique st =
     (let st = st\<lparr>slugAvailable := Some isUnique\<rparr>;
          st = (if \<not> isUnique then st\<lparr>slugError := Some (str ''This slug is already taken'')\<rparr>
                else st)
      in st\<lparr>slugChecking := False\<rparr>)"

text \<open>One call of \<open>checkSlug\<close> that runs to its end with nothing else in between.\<close>

definition checkSlug ::
  "uniqueness_oracle \<Rightarrow> jsstring \<Rightarrow> atoms \<times> jsstring list \<Rightarrow> atoms \<times> jsstring list" where
  "checkSlug client slug = (\<lambda>(st, qs).
     let (awaiting, st') = checkSlug_begin slug st
     in if awaiting then
          (let chk = checkSlugUnique client slug qs
           in (checkSlug_resume (fst chk) st', snd chk))
        else (st', qs))"

text \<open>
  Calls that overlap. JavaScript runs one piece of code at a time and switches only at
  an \<^verbatim>\<open>await\<close>, so a history of the form is a list of events, each run as a whole:
  \<open>Call slug\<close> is a call of \<open>checkSlug\<close> up to its \<^verbatim>\<open>await\<close>, \<open>Settle i r\<close> the
  arrival of the answer \<open>r\<close> to the query issued as number \<open>i\<close> (counted from 0), which
  runs the rest of that call. The state holds the atoms, the queries issued and the
  numbers of the queries still unanswered.
\<close>

datatype form_event = Call jsstring | Settle nat query_result

record form_state =
  shown :: atoms
  issued :: "jsstring list"
  outstanding :: "nat list"

fun form_step :: "form_event \<Rightarrow> form_state \<Rightarrow> form_state" where
  "form_step (Call slug) s =
     (let (awaiting, st') = checkSlug_begin slug (shown s)
      in if awaiting then
           \<lparr>shown = st', issued = issued s @ [slug],
            outstanding = outstanding s @ [length (issued s)]\<rparr>
         else s\<lparr>shown := st'\<rparr>)"
| "form_step (Settle i r) s =
     (if i \<in> set (outstanding s) then
        s\<lparr>shown := checkSlug_resume (checkSlugUnique_settle r) (shown s),
          outstanding := removeAll i (outstanding s)\<rparr>
      else s)"

definition form_run :: "form_event list \<Rightarrow> form_state \<Rightarrow> form_state" where
  "form_run evs s = fold form_step evs s"

definition initial_form :: form_state where
  "initial_form = \<lparr>shown = initial_atoms, issued = [], outstanding = []\<rparr>"

text \<open>
  \<open>useComponentSlug\<close>, called by the form instance \<open>inst\<close>: the values of
  \<open>slugAvailable\<close>, \<open>slugChecking\<close> and \<open>slugError\<close> it returns. Each call reads the
  three module-level atoms with \<^verbatim>\<open>useAtom\<close>; the instance does not occur on the right.
  \<open>instance_checkSlug\<close> is the \<open>checkSlug\<close> that the hook hands to that instance: its
  setters are those of the same three atoms.
\<close>

definition useComponentSlug :: "nat \<Rightarrow> atoms \<Rightarrow> atoms" where
  "useComponentSlug inst store =
     \<lparr>slugAvailable = slugAvailable store, slugChecking = slugChecking store,
      slugError = slugError store\<rparr>"

definition instance_checkSlug ::
  "nat \<Rightarrow> uniqueness_oracle \<Rightarrow> jsstring \<Rightarrow> atoms \<times> jsstring list \<Rightarrow> atoms \<times> jsstring list" where
  "instance_checkSlug inst client slug = checkSlug client slug"


section \<open>The vocabulary of the specification\<close>

text \<open>
  The validator as the specification words it: the string is made of non-empty
  segments of lower-case letters and digits, separated by single hyphens. Cutting the
  string at every hyphen gives the segments (an empty one where a hyphen leads, ends or
  follows another).
\<close>

fun split_hyphen :: "jsstring \<Rightarrow> jsstring list" where
  "split_hyphen [] = [[]]"
| "split_hyphen (c # cs) =
     (if c = hyphen then [] # split_hyphen cs
      else (c # hd (split_hyphen cs)) # tl (split_hyphen cs))"

definition slug_grammar :: "jsstring \<Rightarrow> bool" where
  "slug_grammar s = list_all (\<lambda>seg. seg \<noteq> [] \<and> list_all in_az09 seg) (split_hyphen s)"

text \<open>Upper-case letters, and the alphanumeric characters: ASCII letters and digits.\<close>

definition ascii_upper :: "code_unit \<Rightarrow> bool" where
  "ascii_upper c = (65 \<le> c \<and> c \<le> 90)"

definition ascii_alnum :: "code_unit \<Rightarrow> bool" where
  "ascii_alnum c = (ascii_upper c \<or> in_az09 c)"

text \<open>
  The code units of which the normalizer keeps something: the alphanumeric ones and the
  two whose lower-case form contains an ASCII letter.
\<close>

definition kept :: "code_unit \<Rightarrow> bool" where
  "kept c = (ascii_alnum c \<or> c = 304 \<or> c = 8490)"

text \<open>
  The oracle reports no existing match: the query succeeded and found no row. The
  attempts of the resolver on a base are the base itself, then the base with the
  suffixes 1, 2, ...; \<open>reports_free client base k\<close> says that the oracle, asked the
  attempts in that order, reports no existing match at attempt number \<open>k\<close>.
\<close>

definition no_existing_match :: "query_result \<Rightarrow> bool" where
  "no_existing_match r = (error r = None \<and> data r = Some [])"

definition candidate :: "jsstring \<Rightarrow> nat \<Rightarrow> jsstring" where
  "candidate base k = (if k = 0 then base else base @ hyphen # decimal k)"

definition attempts :: "jsstring \<Rightarrow> nat \<Rightarrow> jsstring list" where
  "attempts base n = map (candidate base) [0..<n]"

definition reports_free :: "uniqueness_oracle \<Rightarrow> jsstring \<Rightarrow> nat \<Rightarrow> bool" where
  "reports_free client base k = no_existing_match (client (attempts base k) (candidate base k))"

text \<open>Answers of the oracle used in the scenarios: one row found, none found, a failure.\<close>

definition taken :: query_result where
  "taken = \<lparr>data = Some [7], error = None\<rparr>"

definition free :: query_result where
  "free = \<lparr>data = Some [], error = None\<rparr>"

definition unavailable :: query_result where
  "unavailable = \<lparr>data = None, error = Some ''fetch failed''\<rparr>"


text \<open>
  Oracles of the scenarios. In the first, \<^verbatim>\<open>my-button\<close> and \<^verbatim>\<open>my-button-1\<close> are in the
  store and nothing else is. The others answer by the number of queries made before:
  always taken, taken for the first \<open>n\<close> queries, failing always or on the first query
  only, always free.
\<close>

definition scenario_oracle :: uniqueness_oracle where
  "scenario_oracle qs slug =
     (if slug = str ''my-button'' \<or> slug = str ''my-button-1'' then taken else free)"

definition always_taken :: uniqueness_oracle where
  "always_taken qs slug = taken"

definition taken_first :: "nat \<Rightarrow> uniqueness_oracle" where
  "taken_first n qs slug = (if length qs < n then taken else free)"

definition always_unavailable :: uniqueness_oracle where
  "always_unavailable qs slug = unavailable"

definition unavailable_once :: uniqueness_oracle where
  "unavailable_once qs slug = (if qs = [] then unavailable else free)"

definition always_free :: uniqueness_oracle where
  "always_free qs slug = free"

text \<open>The attempts on an empty base: the empty string, then \<^verbatim>\<open>-1\<close>, \<^verbatim>\<open>-2\<close>, ...\<close>

definition bare_suffix :: "nat \<Rightarrow> jsstring" where
  "bare_suffix k = (if k = 0 then [] else hyphen # decimal k)"


section \<open>Shapes of strings used in the proofs\<close>

definition slug_char :: "code_unit \<Rightarrow> bool" where
  "slug_char c = (in_az09 c \<or> c = hyphen)"

fun no_double :: "jsstring \<Rightarrow> bool" where
  "no_double (c # d # cs) = (\<not> (c = hyphen \<and> d = hyphen) \<and> no_double (d # cs))"
| "no_double cs = True"

text \<open>What a run of the loop that returns \<open>y\<close> says about the oracle.\<close>

definition loop_post ::
  "uniqueness_oracle \<Rightarrow> jsstring \<Rightarrow> jsstring \<Rightarrow> bool \<Rightarrow> nat \<Rightarrow> jsstring list \<Rightarrow>
   jsstring \<times> jsstring list \<Rightarrow> bool" where
  "loop_post client baseName newSlug isUnique k qs y =
     (0 < k \<longrightarrow> qs = attempts (generateSlug baseName) k \<longrightarrow>
      (if isUnique then y = (newSlug, qs)
       else \<exists>n. k \<le> n \<and>
              (\<forall>j. k \<le> j \<and> j < n \<longrightarrow> \<not> reports_free client (generateSlug baseName) j) \<and>
              reports_free client (generateSlug baseName) n \<and>
              y = (candidate (generateSlug baseName) n, attempts (generateSlug baseName) (Suc n))))"


section \<open>Evaluation at concrete strings\<close>

lemmas slug_eval =
  generateSlug_def isValidSlug_def str_def toLowerCase_def toLowerCase_unit_def
  in_az09_def hyphen_def

lemma hyphen_not_az09 [simp]: "\<not> in_az09 hyphen"
  by (simp add: in_az09_def hyphen_def)


section \<open>The three replacements\<close>

lemma no_double_Cons:
  "no_double (c # cs) = ((cs \<noteq> [] \<longrightarrow> \<not> (c = hyphen \<and> hd cs = hyphen)) \<and> no_double cs)"
  by (cases cs) auto

lemma no_double_dropWhile: "no_double s \<Longrightarrow> no_double (dropWhile P s)"
  by (induction s) (auto simp: no_double_Cons)

lemma double_hyphen_not_no_double: "\<not> no_double (xs @ hyphen # hyphen # ys)"
  by (induction xs) (auto simp: no_double_Cons)

lemma replace_runs_hd:
  "s \<noteq> [] \<Longrightarrow> \<not> P (hd s) \<Longrightarrow> replace_runs P r s \<noteq> [] \<and> hd (replace_runs P r s) = hd s"
  by (cases s) auto

lemma dropWhile_hd: "d = dropWhile P cs \<Longrightarrow> d \<noteq> [] \<Longrightarrow> \<not> P (hd d)"
  using hd_dropWhile [of P cs] by blast

lemma step1_chars: "list_all slug_char (replace_runs (\<lambda>c. \<not> in_az09 c) [hyphen] s)"
  by (induction "\<lambda>c. \<not> in_az09 c" "[hyphen]" s rule: replace_runs.induct)
     (auto simp: slug_char_def)

lemma step1_no_double: "no_double (replace_runs (\<lambda>c. \<not> in_az09 c) [hyphen] s)"
proof (induction "\<lambda>c. \<not> in_az09 c" "[hyphen]" s rule: replace_runs.induct)
  case 1
  show ?case by simp
next
  case (2 c cs)
  show ?case
  proof (cases "in_az09 c")
    case True
    then have "c \<noteq> hyphen" by auto
    with True 2 show ?thesis by (simp add: no_double_Cons)
  next
    case False
    define d where "d = dropWhile (\<lambda>c. \<not> in_az09 c) cs"
    have nd: "no_double (replace_runs (\<lambda>c. \<not> in_az09 c) [hyphen] d)"
      using 2 False by (simp add: d_def)
    have "no_double (hyphen # replace_runs (\<lambda>c. \<not> in_az09 c) [hyphen] d)"
    proof (cases "d = []")
      case True
      then show ?thesis by simp
    next
      case ne: False
      then have "in_az09 (hd d)"
        using dropWhile_hd [OF d_def] by blast
      with ne have "hd (replace_runs (\<lambda>c. \<not> in_az09 c) [hyphen] d) \<noteq> hyphen"
        using replace_runs_hd [of d "\<lambda>c. \<not> in_az09 c" "[hyphen]"] by auto
      with nd show ?thesis by (simp add: no_double_Cons)
    qed
    with False show ?thesis by (simp add: d_def)
  qed
qed

lemma step1_all_hyphen:
  "list_all (\<lambda>d. d = hyphen) (replace_runs (\<lambda>c. \<not> in_az09 c) [hyphen] s) \<longleftrightarrow>
   list_all (\<lambda>c. \<not> in_az09 c) s"
proof (induction "\<lambda>c. \<not> in_az09 c" "[hyphen]" s rule: replace_runs.induct)
  case 1
  show ?case by simp
next
  case (2 c cs)
  have "list_all (\<lambda>c. \<not> in_az09 c) (dropWhile (\<lambda>c. \<not> in_az09 c) cs) \<longleftrightarrow>
        list_all (\<lambda>c. \<not> in_az09 c) cs"
    by (induction cs) auto
  with 2 show ?case by (cases "in_az09 c") auto
qed

lemma step1_id:
  "list_all slug_char s \<Longrightarrow> no_double s \<Longrightarrow> replace_runs (\<lambda>c. \<not> in_az09 c) [hyphen] s = s"
proof (induction "\<lambda>c. \<not> in_az09 c" "[hyphen]" s rule: replace_runs.induct)
  case 1
  show ?case by simp
next
  case (2 c cs)
  from 2(4) have nd: "no_double cs" by (simp add: no_double_Cons)
  from 2(3) have ch: "list_all slug_char cs" by simp
  show ?case
  proof (cases "in_az09 c")
    case True
    with 2(2) nd ch show ?thesis by simp
  next
    case False
    with 2(3) have c: "c = hyphen" by (simp add: slug_char_def)
    with 2(3,4) have "dropWhile (\<lambda>c. \<not> in_az09 c) cs = cs"
      by (cases cs) (auto simp: no_double_Cons slug_char_def)
    with False c 2(1) nd ch show ?thesis by simp
  qed
qed

lemma edge_False_empty: "replace_edge_runs False s = [] \<longleftrightarrow> list_all (\<lambda>d. d = hyphen) s"
  by (induction False s rule: replace_edge_runs.induct) auto

lemma edge_False_hd:
  "replace_edge_runs False s \<noteq> [] \<Longrightarrow> hd (replace_edge_runs False s) = hd s"
  by (cases s) (auto split: if_splits)

lemma edge_set: "set (replace_edge_runs b s) \<subseteq> set s"
  by (induction b s rule: replace_edge_runs.induct) (auto dest: set_dropWhileD)

lemma edge_no_double: "no_double s \<Longrightarrow> no_double (replace_edge_runs b s)"
proof (induction b s rule: replace_edge_runs.induct)
  case (1 at_start)
  show ?case by simp
next
  case (2 at_start c cs)
  from 2(3) have cs: "no_double cs" by (simp add: no_double_Cons)
  show ?case
  proof (cases "c = hyphen \<and> at_start")
    case True
    with 2(1) cs show ?thesis by (simp add: no_double_dropWhile)
  next
    case False
    show ?thesis
    proof (cases "c = hyphen \<and> list_all (\<lambda>d. d = hyphen) cs")
      case True
      with False show ?thesis by simp
    next
      case nt: False
      have ih: "no_double (replace_edge_runs False cs)"
        using 2(2) False nt cs by simp
      have "replace_edge_runs at_start (c # cs) = c # replace_edge_runs False cs"
        using False nt by auto
      moreover have "no_double (c # replace_edge_runs False cs)"
        using ih 2(3) edge_False_hd [of cs] edge_False_empty [of cs]
        by (cases cs) (auto simp: no_double_Cons)
      ultimately show ?thesis by simp
    qed
  qed
qed

lemma edge_last: "replace_edge_runs b s \<noteq> [] \<Longrightarrow> last (replace_edge_runs b s) \<noteq> hyphen"
  by (induction b s rule: replace_edge_runs.induct)
     (auto simp: edge_False_empty split: if_splits)

lemma edge_True_hd:
  "replace_edge_runs True s \<noteq> [] \<Longrightarrow> hd (replace_edge_runs True s) \<noteq> hyphen"
proof (cases s)
  case Nil
  then show "replace_edge_runs True s \<noteq> [] \<Longrightarrow> ?thesis" by simp
next
  case (Cons c cs)
  assume ne: "replace_edge_runs True s \<noteq> []"
  show ?thesis
  proof (cases "c = hyphen")
    case True
    define d where "d = dropWhile (\<lambda>d. d = hyphen) cs"
    have eq: "replace_edge_runs True s = replace_edge_runs False d"
      using Cons True by (simp add: d_def)
    with ne have "hd (replace_edge_runs False d) = hd d" by (simp add: edge_False_hd)
    moreover have "d \<noteq> []" using ne eq by auto
    then have "hd d \<noteq> hyphen"
      using dropWhile_hd [OF d_def] by blast
    ultimately show ?thesis using eq by simp
  next
    case False
    with Cons show ?thesis by simp
  qed
qed

lemma edge_True_empty: "replace_edge_runs True s = [] \<longleftrightarrow> list_all (\<lambda>d. d = hyphen) s"
proof (cases s)
  case Nil
  then show ?thesis by simp
next
  case (Cons c cs)
  have "list_all (\<lambda>d. d = hyphen) (dropWhile (\<lambda>d. d = hyphen) cs) \<longleftrightarrow>
        list_all (\<lambda>d. d = hyphen) cs"
    by (induction cs) auto
  with Cons show ?thesis by (auto simp: edge_False_empty)
qed

lemma edge_False_id: "s = [] \<or> last s \<noteq> hyphen \<Longrightarrow> replace_edge_runs False s = s"
proof (induction s)
  case Nil
  show ?case by simp
next
  case (Cons c cs)
  have "\<not> (c = hyphen \<and> list_all (\<lambda>d. d = hyphen) cs)"
    using Cons.prems by (cases "cs = []") (auto simp: list_all_iff)
  moreover have "replace_edge_runs False cs = cs"
    using Cons by (cases "cs = []") auto
  ultimately show ?case by auto
qed

lemma edge_True_id:
  "s = [] \<or> (hd s \<noteq> hyphen \<and> last s \<noteq> hyphen) \<Longrightarrow> replace_edge_runs True s = s"
proof (cases s)
  case Nil
  then show ?thesis by simp
next
  case (Cons c cs)
  assume "s = [] \<or> (hd s \<noteq> hyphen \<and> last s \<noteq> hyphen)"
  with Cons have c: "c \<noteq> hyphen" and l: "last (c # cs) \<noteq> hyphen" by auto
  have "replace_edge_runs False (c # cs) = c # cs"
    using l by (intro edge_False_id) simp
  with c Cons show ?thesis by simp
qed

lemma collapse_id: "no_double s \<Longrightarrow> replace_runs (\<lambda>c. c = hyphen) [hyphen] s = s"
proof (induction "\<lambda>c. c = hyphen" "[hyphen]" s rule: replace_runs.induct)
  case 1
  show ?case by simp
next
  case (2 c cs)
  from 2(3) have cs: "no_double cs" by (simp add: no_double_Cons)
  show ?case
  proof (cases "c = hyphen")
    case True
    with 2(3) have "dropWhile (\<lambda>c. c = hyphen) cs = cs"
      by (cases cs) (auto simp: no_double_Cons)
    with True 2(1) cs show ?thesis by simp
  next
    case False
    with 2(2) cs show ?thesis by simp
  qed
qed

lemma toLowerCase_id: "list_all slug_char s \<Longrightarrow> toLowerCase s = s"
  by (induction s)
     (auto simp: toLowerCase_def toLowerCase_unit_def slug_char_def in_az09_def hyphen_def)

lemma toLowerCase_unit_kept: "list_ex in_az09 (toLowerCase_unit c) \<longleftrightarrow> kept c"
  by (auto simp: toLowerCase_unit_def kept_def ascii_alnum_def ascii_upper_def in_az09_def)

lemma toLowerCase_kept: "list_ex in_az09 (toLowerCase s) \<longleftrightarrow> list_ex kept s"
  by (induction s) (simp_all add: toLowerCase_def toLowerCase_unit_kept)


section \<open>The validator\<close>

lemma slug_match_iff:
  "slug_match b s \<longleftrightarrow>
     list_all slug_char s \<and> no_double s \<and>
     (if s = [] then b else last s \<noteq> hyphen \<and> (hd s = hyphen \<longrightarrow> b))"
proof (induction s arbitrary: b)
  case Nil
  show ?case by simp
next
  case (Cons c cs)
  show ?case
  proof (cases "in_az09 c")
    case True
    then have "c \<noteq> hyphen" by auto
    with True Cons [of True] show ?thesis
      by (auto simp: slug_char_def no_double_Cons)
  next
    case False
    show ?thesis
    proof (cases "c = hyphen \<and> b")
      case True
      with False Cons [of False] show ?thesis
        by (auto simp: slug_char_def no_double_Cons)
    next
      case nt: False
      with False show ?thesis by (auto simp: slug_char_def)
    qed
  qed
qed

lemma split_hyphen_ne [simp]: "split_hyphen s \<noteq> []"
  by (induction s) auto

lemma slug_match_split:
  "slug_match b s \<longleftrightarrow>
     list_all (list_all in_az09) (split_hyphen s) \<and>
     list_all (\<lambda>seg. seg \<noteq> []) (tl (split_hyphen s)) \<and>
     (b \<or> hd (split_hyphen s) \<noteq> [])"
proof (induction s arbitrary: b)
  case Nil
  show ?case by simp
next
  case (Cons c cs)
  obtain seg segs where sp: "split_hyphen cs = seg # segs"
    by (cases "split_hyphen cs") auto
  show ?case
    using Cons [of True] Cons [of False] sp by auto
qed

lemma isValidSlug_split: "isValidSlug s \<longleftrightarrow> slug_grammar s"
proof -
  obtain seg segs where sp: "split_hyphen s = seg # segs"
    by (cases "split_hyphen s") auto
  show ?thesis
    unfolding isValidSlug_def slug_grammar_def slug_match_split [of False s] sp
    by (auto simp: list_all_iff)
qed

lemma isValidSlug_shape:
  "isValidSlug s \<longleftrightarrow>
     s \<noteq> [] \<and> list_all slug_char s \<and> no_double s \<and> hd s \<noteq> hyphen \<and> last s \<noteq> hyphen"
  by (auto simp: isValidSlug_def slug_match_iff [of False s])


inductive_simps matches_Chr: "matches (Chr c) s"
inductive_simps matches_Range: "matches (Range rs) s"
inductive_simps matches_Seq: "matches (Seq r q) s"

lemma in_ranges_az09: "in_ranges [(97, 122), (48, 57)] c = in_az09 c"
  by (auto simp: in_ranges_def in_az09_def)

lemma matches_az09: "matches az09 s \<longleftrightarrow> (\<exists>c. s = [c] \<and> in_az09 c)"
  by (auto simp: az09_def matches_Range in_ranges_az09)

lemma Plus_az09_sound:
  "matches r s \<Longrightarrow> r = Plus az09 \<Longrightarrow> s \<noteq> [] \<and> list_all in_az09 s"
  by (induction rule: matches.induct) (auto simp: matches_az09)

lemma Plus_az09_complete:
  "s \<noteq> [] \<Longrightarrow> list_all in_az09 s \<Longrightarrow> matches (Plus az09) s"
proof (induction s)
  case Nil
  then show ?case by simp
next
  case (Cons c cs)
  then have c: "matches az09 [c]" by (simp add: matches_az09)
  show ?case
  proof (cases "cs = []")
    case True
    with c show ?thesis by (simp add: matches.Plus_one)
  next
    case False
    with Cons have "matches (Plus az09) cs" by simp
    with c have "matches (Plus az09) ([c] @ cs)" by (rule matches.Plus_more)
    then show ?thesis by simp
  qed
qed

lemma matches_Plus_az09: "matches (Plus az09) s \<longleftrightarrow> s \<noteq> [] \<and> list_all in_az09 s"
  using Plus_az09_sound [of "Plus az09" s] Plus_az09_complete [of s] by blast

lemma matches_group:
  "matches (Seq (Chr 45) (Plus az09)) s \<longleftrightarrow>
   (\<exists>cs. s = hyphen # cs \<and> cs \<noteq> [] \<and> list_all in_az09 cs)"
  by (auto simp: matches_Seq matches_Chr matches_Plus_az09 hyphen_def)

lemma slug_match_segment:
  "cs \<noteq> [] \<Longrightarrow> list_all in_az09 cs \<Longrightarrow> slug_match b (cs @ w) = slug_match True w"
proof (induction cs arbitrary: b)
  case Nil
  then show ?case by simp
next
  case (Cons c cs)
  then show ?case by (cases "cs = []") auto
qed

lemma tail_sound:
  "matches r w \<Longrightarrow> r = Star (Seq (Chr 45) (Plus az09)) \<Longrightarrow> slug_match True w"
proof (induction rule: matches.induct)
  case (Star_more r u v)
  then obtain cs where "u = hyphen # cs" "cs \<noteq> []" "list_all in_az09 cs"
    by (auto simp: matches_group)
  with Star_more show ?case by (simp add: slug_match_segment)
qed simp_all

lemma matches_slugRegex:
  "matches slugRegex s \<longleftrightarrow>
   (\<exists>u w. s = u @ w \<and> u \<noteq> [] \<and> list_all in_az09 u \<and>
      matches (Star (Seq (Chr 45) (Plus az09))) w)"
  by (auto simp: slugRegex_def matches_Seq matches_Plus_az09)

lemma slug_match_complete:
  "slug_match b s \<Longrightarrow>
   \<exists>u w. s = u @ w \<and> (b \<or> u \<noteq> []) \<and> list_all in_az09 u \<and>
      matches (Star (Seq (Chr 45) (Plus az09))) w"
proof (induction s arbitrary: b)
  case Nil
  then have "b \<and> matches (Star (Seq (Chr 45) (Plus az09))) []"
    by (simp add: matches.Star_none)
  then show ?case
    by (intro exI [of _ "[]"]) simp
next
  case (Cons c cs)
  show ?case
  proof (cases "in_az09 c")
    case True
    with Cons.prems have "slug_match True cs" by simp
    from Cons.IH [OF this] obtain u w where
      "cs = u @ w" "list_all in_az09 u" "matches (Star (Seq (Chr 45) (Plus az09))) w"
      by blast
    with True show ?thesis
      by (intro exI [of _ "c # u"] exI [of _ w]) simp
  next
    case False
    with Cons.prems have h: "c = hyphen" and b: b and "slug_match False cs"
      by (auto split: if_splits)
    from Cons.IH [OF this(3)] obtain u w where
      uw: "cs = u @ w" "u \<noteq> []" "list_all in_az09 u"
      "matches (Star (Seq (Chr 45) (Plus az09))) w"
      by blast
    then have "matches (Seq (Chr 45) (Plus az09)) (hyphen # u)"
      by (simp add: matches_group)
    from this uw(4) have "matches (Star (Seq (Chr 45) (Plus az09))) ((hyphen # u) @ w)"
      by (rule matches.Star_more)
    with h b uw(1) show ?thesis
      by (intro exI [of _ "[]"] exI [of _ "c # cs"]) simp
  qed
qed

lemma isValidSlug_regex: "isValidSlug s \<longleftrightarrow> matches slugRegex s"
proof
  assume "isValidSlug s"
  then have "slug_match False s" by (simp add: isValidSlug_def)
  from slug_match_complete [OF this] show "matches slugRegex s"
    by (simp add: matches_slugRegex)
next
  assume "matches slugRegex s"
  then obtain u w where "s = u @ w" "u \<noteq> []" "list_all in_az09 u"
    "matches (Star (Seq (Chr 45) (Plus az09))) w"
    by (auto simp: matches_slugRegex)
  then show "isValidSlug s"
    using tail_sound [of "Star (Seq (Chr 45) (Plus az09))" w]
    by (simp add: isValidSlug_def slug_match_segment)
qed


section \<open>The normalizer\<close>

lemma generateSlug_fixed:
  assumes "s = [] \<or> isValidSlug s"
  shows "generateSlug s = s"
proof (cases "s = []")
  case True
  then show ?thesis by (simp add: generateSlug_def toLowerCase_def)
next
  case False
  with assms have v: "isValidSlug s" by simp
  then have ch: "list_all slug_char s" and nd: "no_double s"
    and e: "hd s \<noteq> hyphen \<and> last s \<noteq> hyphen"
    by (simp_all add: isValidSlug_shape)
  show ?thesis
    by (simp add: generateSlug_def toLowerCase_id [OF ch] step1_id [OF ch nd]
          edge_True_id e collapse_id [OF nd])
qed

lemma generateSlug_edge:
  "generateSlug x =
   replace_edge_runs True (replace_runs (\<lambda>c. \<not> in_az09 c) [hyphen] (toLowerCase x))"
  by (simp add: generateSlug_def collapse_id edge_no_double step1_no_double)

lemma generateSlug_shape: "generateSlug x = [] \<or> isValidSlug (generateSlug x)"
proof (cases "generateSlug x = []")
  case True
  then show ?thesis by simp
next
  case False
  define t where "t = replace_runs (\<lambda>c. \<not> in_az09 c) [hyphen] (toLowerCase x)"
  have g: "generateSlug x = replace_edge_runs True t"
    by (simp add: generateSlug_edge t_def)
  have "list_all slug_char t" by (simp add: t_def step1_chars)
  then have "list_all slug_char (replace_edge_runs True t)"
    using edge_set [of True t] by (auto simp: list_all_iff)
  moreover have "no_double (replace_edge_runs True t)"
    by (simp add: t_def edge_no_double step1_no_double)
  moreover have "last (replace_edge_runs True t) \<noteq> hyphen"
    using False g edge_last [of True t] by simp
  moreover have "hd (replace_edge_runs True t) \<noteq> hyphen"
    using False g edge_True_hd [of t] by simp
  ultimately have "isValidSlug (replace_edge_runs True t)"
    using False g by (simp add: isValidSlug_shape)
  then show ?thesis by (simp add: g)
qed

lemma generateSlug_empty_iff: "generateSlug x = [] \<longleftrightarrow> \<not> list_ex kept x"
proof -
  have "generateSlug x = [] \<longleftrightarrow> list_all (\<lambda>c. \<not> in_az09 c) (toLowerCase x)"
    by (simp add: generateSlug_edge edge_True_empty step1_all_hyphen)
  also have "\<dots> \<longleftrightarrow> \<not> list_ex in_az09 (toLowerCase x)"
    by (simp add: list_all_iff list_ex_iff)
  finally show ?thesis by (simp add: toLowerCase_kept)
qed

lemma generateSlug_My_Button: "generateSlug (str ''My Button!!'') = str ''my-button''"
  by (simp add: slug_eval)

text \<open>
  C7. Normalization is idempotent: for every string \<open>x\<close>, normalizing the normalized
  \<open>x\<close> gives the normalized \<open>x\<close> again.
\<close>

theorem generateSlug_idempotent: "generateSlug (generateSlug x) = generateSlug x"
  using generateSlug_shape [of x] by (intro generateSlug_fixed)

theorem generateSlug_idempotent_witness:
  "generateSlug (generateSlug (str ''My Button!!'')) = str ''my-button''"
  using generateSlug_idempotent [of "str ''My Button!!''"]
  by (simp only: generateSlug_My_Button)

text \<open>
  C8, as stated: the slug of \<open>x\<close> is empty exactly when \<open>x\<close> has no alphanumeric
  character. The Kelvin sign (U+212A) is no ASCII letter or digit, and its slug is
  \<^verbatim>\<open>k\<close>: the built-in lower-casing maps it to the ASCII letter. (Were the letters of
  all scripts meant, the other direction would fail: U+00E9, e with acute accent, is a
  letter, and its slug is empty.)
\<close>

theorem generateSlug_empty_counterexample:
  "generateSlug [8490] = str ''k'' \<and> list_ex ascii_alnum [8490] = False \<and>
   generateSlug [233] = []"
  by (simp add: slug_eval ascii_alnum_def ascii_upper_def)

text \<open>
  C8, amended. For every string \<open>x\<close>, the slug of \<open>x\<close> satisfies the validator or is
  empty; it is empty exactly when \<open>x\<close> has no ASCII letter or digit and neither of
  U+0130 and U+212A, the two characters outside ASCII whose lower-case form contains an
  ASCII letter. The slug of \<^verbatim>\<open>My Button!!\<close> is \<^verbatim>\<open>my-button\<close>; the slugs of the empty
  string and of \<^verbatim>\<open>***\<close> are empty.
\<close>

theorem generateSlug_valid_or_empty:
  "(isValidSlug (generateSlug x) \<or> generateSlug x = []) \<and>
   (generateSlug x = [] \<longleftrightarrow> \<not> list_ex (\<lambda>c. ascii_alnum c \<or> c = 304 \<or> c = 8490) x) \<and>
   generateSlug (str ''My Button!!'') = str ''my-button'' \<and>
   generateSlug (str []) = str [] \<and>
   generateSlug (str ''***'') = str []"
proof -
  have "isValidSlug (generateSlug x) \<or> generateSlug x = []"
    using generateSlug_shape [of x] by blast
  moreover have "generateSlug x = [] \<longleftrightarrow> \<not> list_ex (\<lambda>c. ascii_alnum c \<or> c = 304 \<or> c = 8490) x"
    using generateSlug_empty_iff [of x] by (simp add: kept_def [abs_def])
  moreover have "generateSlug (str []) = str []"
    by (simp add: slug_eval)
  moreover have "generateSlug (str ''***'') = str []"
    by (simp add: slug_eval)
  ultimately show ?thesis
    using generateSlug_My_Button by blast
qed

theorem generateSlug_valid_or_empty_witness:
  "isValidSlug (generateSlug (str ''Hello, World'')) \<and>
   generateSlug (str ''Hello, World'') \<noteq> [] \<and>
   generateSlug [304, 115] = str ''i-s'' \<and>
   generateSlug [233] = []"
proof -
  have ne: "list_ex (\<lambda>c. ascii_alnum c \<or> c = 304 \<or> c = 8490) (str ''Hello, World'')"
    by (simp add: str_def ascii_alnum_def ascii_upper_def in_az09_def)
  have e: "\<not> list_ex (\<lambda>c. ascii_alnum c \<or> c = 304 \<or> c = 8490) [233]"
    by (simp add: ascii_alnum_def ascii_upper_def in_az09_def)
  have "generateSlug [304, 115] = str ''i-s''"
    by (simp add: slug_eval)
  with ne e show ?thesis
    using generateSlug_valid_or_empty [of "str ''Hello, World''"]
      generateSlug_valid_or_empty [of "[233]"]
    by blast
qed

text \<open>
  C9. The validator returns true for a string if and only if the string matches
  \<^verbatim>\<open>^[a-z0-9]+(?:-[a-z0-9]+)*$\<close>, that is, is made of non-empty segments of
  lower-case letters and digits separated by single hyphens. In particular it returns
  false for every string that contains an upper-case letter, starts or ends with a
  hyphen, or contains two hyphens in a row; and for every string with a character that
  is neither in \<^verbatim>\<open>[a-z0-9]\<close> nor the hyphen, the upper-case letters of all scripts
  among them.
\<close>

theorem isValidSlug_iff_grammar:
  "(isValidSlug s \<longleftrightarrow> matches slugRegex s) \<and>
   (isValidSlug s \<longleftrightarrow> slug_grammar s) \<and>
   (list_ex ascii_upper s \<longrightarrow> \<not> isValidSlug s) \<and>
   (s \<noteq> [] \<and> hd s = hyphen \<longrightarrow> \<not> isValidSlug s) \<and>
   (s \<noteq> [] \<and> last s = hyphen \<longrightarrow> \<not> isValidSlug s) \<and>
   ((\<exists>xs ys. s = xs @ [hyphen, hyphen] @ ys) \<longrightarrow> \<not> isValidSlug s) \<and>
   (list_ex (\<lambda>c. \<not> in_az09 c \<and> c \<noteq> hyphen) s \<longrightarrow> \<not> isValidSlug s)"
proof (intro conjI impI)
  show "isValidSlug s \<longleftrightarrow> matches slugRegex s"
    by (rule isValidSlug_regex)
next
  show "isValidSlug s \<longleftrightarrow> slug_grammar s"
    by (rule isValidSlug_split)
next
  assume "list_ex ascii_upper s"
  then obtain c where "c \<in> set s" and "ascii_upper c"
    by (auto simp: list_ex_iff)
  moreover from this have "\<not> slug_char c"
    by (simp add: slug_char_def ascii_upper_def in_az09_def hyphen_def)
  ultimately have "\<not> list_all slug_char s"
    by (auto simp: list_all_iff)
  then show "\<not> isValidSlug s" by (simp add: isValidSlug_shape)
next
  assume "s \<noteq> [] \<and> hd s = hyphen"
  then show "\<not> isValidSlug s" by (simp add: isValidSlug_shape)
next
  assume "s \<noteq> [] \<and> last s = hyphen"
  then show "\<not> isValidSlug s" by (simp add: isValidSlug_shape)
next
  assume "\<exists>xs ys. s = xs @ [hyphen, hyphen] @ ys"
  then have "\<not> no_double s"
    using double_hyphen_not_no_double by auto
  then show "\<not> isValidSlug s" by (simp add: isValidSlug_shape)
next
  assume "list_ex (\<lambda>c. \<not> in_az09 c \<and> c \<noteq> hyphen) s"
  then have "\<not> list_all slug_char s"
    by (auto simp: list_ex_iff list_all_iff slug_char_def)
  then show "\<not> isValidSlug s" by (simp add: isValidSlug_shape)
qed

theorem isValidSlug_iff_grammar_witness:
  "isValidSlug (str ''my-button'') \<and>
   matches slugRegex (str ''my-button'') \<and>
   isValidSlug (str ''My-button'') = False \<and>
   isValidSlug (str ''-my-button'') = False \<and>
   isValidSlug (str ''my-button-'') = False \<and>
   isValidSlug (str ''my--button'') = False \<and>
   isValidSlug (str ''my button'') = False"
proof -
  note rest = isValidSlug_iff_grammar [THEN conjunct2]
  note parts = rest [THEN conjunct1]
    rest [THEN conjunct2, THEN conjunct1]
    rest [THEN conjunct2, THEN conjunct2, THEN conjunct1]
    rest [THEN conjunct2, THEN conjunct2, THEN conjunct2, THEN conjunct1]
    rest [THEN conjunct2, THEN conjunct2, THEN conjunct2, THEN conjunct2, THEN conjunct1]
    rest [THEN conjunct2, THEN conjunct2, THEN conjunct2, THEN conjunct2, THEN conjunct2]
  have a: "isValidSlug (str ''my-button'')"
    by (rule iffD2 [OF parts(1)]) (simp add: slug_grammar_def str_def in_az09_def hyphen_def)
  then have r: "matches slugRegex (str ''my-button'')"
    by (rule iffD1 [OF isValidSlug_iff_grammar [THEN conjunct1]])
  have b: "\<not> isValidSlug (str ''My-button'')"
    by (rule mp [OF parts(2)]) (simp add: ascii_upper_def str_def)
  have c: "\<not> isValidSlug (str ''-my-button'')"
    by (rule mp [OF parts(3)]) (simp add: str_def hyphen_def)
  have d: "\<not> isValidSlug (str ''my-button-'')"
    by (rule mp [OF parts(4)]) (simp add: str_def hyphen_def)
  have "str ''my--button'' = str ''my'' @ [hyphen, hyphen] @ str ''button''"
    by (simp add: str_def hyphen_def)
  then have "\<exists>xs ys. str ''my--button'' = xs @ [hyphen, hyphen] @ ys"
    by blast
  then have e: "\<not> isValidSlug (str ''my--button'')"
    by (rule mp [OF parts(5)])
  have f: "\<not> isValidSlug (str ''my button'')"
    by (rule mp [OF parts(6)]) (simp add: str_def in_az09_def hyphen_def)
  from a r b c d e f show ?thesis by simp
qed


section \<open>The resolver\<close>

lemma checkSlugUnique_settle_iff: "checkSlugUnique_settle r \<longleftrightarrow> no_existing_match r"
  by (cases "data r") (auto simp: checkSlugUnique_settle_def no_existing_match_def)

lemma attempts_Suc: "attempts base (Suc k) = attempts base k @ [candidate base k]"
  by (simp add: attempts_def)

lemma length_attempts [simp]: "length (attempts base n) = n"
  by (simp add: attempts_def)

lemma loop_step:
  "0 < k \<Longrightarrow>
   generateUniqueSlug_while client baseName newSlug False k (attempts (generateSlug baseName) k) =
   generateUniqueSlug_while client baseName (candidate (generateSlug baseName) k)
     (reports_free client (generateSlug baseName) k) (Suc k)
     (attempts (generateSlug baseName) (Suc k))"
  by (subst generateUniqueSlug_while.simps)
     (simp add: checkSlugUnique_def checkSlugUnique_settle_iff reports_free_def candidate_def
        attempts_Suc Let_def)

lemma loop_exit:
  "generateUniqueSlug_while client baseName newSlug True k qs = Some (newSlug, qs)"
  by (subst generateUniqueSlug_while.simps) simp

lemma loop_found:
  "0 < k \<Longrightarrow> k \<le> n \<Longrightarrow>
   (\<forall>j. k \<le> j \<and> j < n \<longrightarrow> \<not> reports_free client (generateSlug baseName) j) \<Longrightarrow>
   reports_free client (generateSlug baseName) n \<Longrightarrow>
   generateUniqueSlug_while client baseName newSlug False k (attempts (generateSlug baseName) k) =
   Some (candidate (generateSlug baseName) n, attempts (generateSlug baseName) (Suc n))"
proof (induction "n - k" arbitrary: k newSlug)
  case 0
  then have "k = n" by simp
  with 0 show ?case by (simp add: loop_step loop_exit)
next
  case (Suc d)
  then have nf: "\<not> reports_free client (generateSlug baseName) k" and lt: "k < n"
    by auto
  have "generateUniqueSlug_while client baseName (candidate (generateSlug baseName) k) False (Suc k)
          (attempts (generateSlug baseName) (Suc k)) =
        Some (candidate (generateSlug baseName) n, attempts (generateSlug baseName) (Suc n))"
    using Suc lt by (intro Suc.hyps(1)) auto
  with Suc.prems(1) nf show ?case by (simp add: loop_step)
qed

lemma loop_post_step:
  assumes k: "0 < k"
    and ih: "loop_post client baseName (candidate (generateSlug baseName) k)
               (reports_free client (generateSlug baseName) k) (Suc k)
               (attempts (generateSlug baseName) (Suc k)) y"
  shows "loop_post client baseName newSlug False k (attempts (generateSlug baseName) k) y"
proof (cases "reports_free client (generateSlug baseName) k")
  case True
  with ih have "y = (candidate (generateSlug baseName) k, attempts (generateSlug baseName) (Suc k))"
    by (simp add: loop_post_def)
  with True show ?thesis
    unfolding loop_post_def by (auto intro!: exI [of _ k])
next
  case False
  let ?base = "generateSlug baseName"
  from ih False obtain n where n: "Suc k \<le> n"
    "\<forall>j. Suc k \<le> j \<and> j < n \<longrightarrow> \<not> reports_free client ?base j"
    "reports_free client ?base n"
    "y = (candidate ?base n, attempts ?base (Suc n))"
    by (auto simp: loop_post_def)
  have "\<forall>j. k \<le> j \<and> j < n \<longrightarrow> \<not> reports_free client ?base j"
  proof (intro allI impI)
    fix j assume "k \<le> j \<and> j < n"
    then have "j = k \<or> (Suc k \<le> j \<and> j < n)" by auto
    with False n(2) show "\<not> reports_free client ?base j" by auto
  qed
  with n show ?thesis
    unfolding loop_post_def by (auto intro!: exI [of _ n])
qed

lemma loop_sound:
  assumes run: "generateUniqueSlug_while client baseName newSlug isUnique k qs = Some y"
  shows "loop_post client baseName newSlug isUnique k qs y"
proof (rule generateUniqueSlug_while.raw_induct [where P = loop_post, OF _ run])
  fix loop :: "uniqueness_oracle \<Rightarrow> jsstring \<Rightarrow> jsstring \<Rightarrow> bool \<Rightarrow> nat \<Rightarrow> jsstring list \<Rightarrow>
               (jsstring \<times> jsstring list) option"
  fix client baseName newSlug isUnique k qs y
  assume ih: "\<And>c b s u k q y. loop c b s u k q = Some y \<Longrightarrow> loop_post c b s u k q y"
  assume step: "(if \<not> isUnique
      then let newSlug' = generateSlug baseName @ hyphen # decimal k;
               chk = checkSlugUnique client newSlug' qs
           in loop client baseName newSlug' (fst chk) (k + 1) (snd chk)
      else Some (newSlug, qs)) = Some y"
  show "loop_post client baseName newSlug isUnique k qs y"
  proof (cases isUnique)
    case True
    with step show ?thesis by (auto simp: loop_post_def)
  next
    case False
    show ?thesis
    proof (cases "0 < k \<and> qs = attempts (generateSlug baseName) k")
      case inv: True
      with step False have
        "loop client baseName (candidate (generateSlug baseName) k)
           (reports_free client (generateSlug baseName) k) (Suc k)
           (attempts (generateSlug baseName) (Suc k)) = Some y"
        by (simp add: checkSlugUnique_def checkSlugUnique_settle_iff reports_free_def
              candidate_def attempts_Suc Let_def)
      from ih [OF this] inv False show ?thesis
        using loop_post_step by simp
    next
      case False
      then show ?thesis by (auto simp: loop_post_def)
    qed
  qed
qed

lemma generateUniqueSlug_unfold:
  "generateUniqueSlug client baseName =
   generateUniqueSlug_while client baseName (generateSlug baseName)
     (reports_free client (generateSlug baseName) 0) 1 (attempts (generateSlug baseName) 1)"
  by (simp add: generateUniqueSlug_def checkSlugUnique_def checkSlugUnique_settle_iff
        reports_free_def candidate_def attempts_def Let_def)

lemma generateUniqueSlug_found:
  assumes "\<forall>k<n. \<not> reports_free client (generateSlug baseName) k"
    and "reports_free client (generateSlug baseName) n"
  shows "generateUniqueSlug client baseName =
         Some (candidate (generateSlug baseName) n, attempts (generateSlug baseName) (Suc n))"
proof (cases n)
  case 0
  with assms(2) show ?thesis
    by (simp add: generateUniqueSlug_unfold loop_exit candidate_def attempts_def)
next
  case (Suc m)
  with assms(1) have "\<not> reports_free client (generateSlug baseName) 0" by simp
  moreover have "generateUniqueSlug_while client baseName (generateSlug baseName) False 1
      (attempts (generateSlug baseName) 1) =
    Some (candidate (generateSlug baseName) n, attempts (generateSlug baseName) (Suc n))"
    using assms Suc by (intro loop_found) auto
  ultimately show ?thesis by (simp add: generateUniqueSlug_unfold)
qed

lemma generateUniqueSlug_sound:
  assumes "generateUniqueSlug client baseName = Some (slug, qs)"
  shows "\<exists>n. (\<forall>k<n. \<not> reports_free client (generateSlug baseName) k) \<and>
             reports_free client (generateSlug baseName) n \<and>
             slug = candidate (generateSlug baseName) n \<and>
             qs = attempts (generateSlug baseName) (Suc n)"
proof -
  let ?base = "generateSlug baseName"
  from assms have run: "generateUniqueSlug_while client baseName ?base
     (reports_free client ?base 0) 1 (attempts ?base 1) = Some (slug, qs)"
    by (simp add: generateUniqueSlug_unfold)
  show ?thesis
  proof (cases "reports_free client ?base 0")
    case True
    with loop_sound [OF run] show ?thesis
      by (intro exI [of _ 0]) (simp add: loop_post_def candidate_def attempts_def)
  next
    case False
    with loop_sound [OF run] obtain n where n: "1 \<le> n"
      "\<forall>j. 1 \<le> j \<and> j < n \<longrightarrow> \<not> reports_free client ?base j"
      "reports_free client ?base n"
      "(slug, qs) = (candidate ?base n, attempts ?base (Suc n))"
      by (auto simp: loop_post_def)
    have "\<forall>k<n. \<not> reports_free client ?base k"
    proof (intro allI impI)
      fix k assume "k < n"
      then have "k = 0 \<or> (1 \<le> k \<and> k < n)" by auto
      with False n(2) show "\<not> reports_free client ?base k" by auto
    qed
    with n show ?thesis by (intro exI [of _ n]) simp
  qed
qed

lemma generateUniqueSlug_never:
  assumes "\<forall>k. \<not> reports_free client (generateSlug baseName) k"
  shows "generateUniqueSlug client baseName = None"
proof (cases "generateUniqueSlug client baseName")
  case None
  then show ?thesis .
next
  case (Some y)
  obtain slug qs where "y = (slug, qs)" by (cases y)
  with Some generateUniqueSlug_sound [of client baseName slug qs] assms show ?thesis by auto
qed

lemma generateUniqueSlug_None_iff:
  "generateUniqueSlug client baseName = None \<longleftrightarrow>
   (\<forall>k. \<not> reports_free client (generateSlug baseName) k)"
proof
  assume none: "generateUniqueSlug client baseName = None"
  show "\<forall>k. \<not> reports_free client (generateSlug baseName) k"
  proof (rule ccontr)
    assume "\<not> (\<forall>k. \<not> reports_free client (generateSlug baseName) k)"
    then obtain k where k: "reports_free client (generateSlug baseName) k" by blast
    define n where "n = (LEAST k. reports_free client (generateSlug baseName) k)"
    have "reports_free client (generateSlug baseName) n"
      unfolding n_def using k by (rule LeastI)
    moreover have "\<forall>j<n. \<not> reports_free client (generateSlug baseName) j"
      unfolding n_def using not_less_Least by blast
    ultimately show False
      using generateUniqueSlug_found [of n client baseName] none by simp
  qed
next
  assume "\<forall>k. \<not> reports_free client (generateSlug baseName) k"
  then show "generateUniqueSlug client baseName = None"
    by (rule generateUniqueSlug_never)
qed

lemma generateUniqueSlug_progress:
  "(\<forall>k\<le>n. \<not> reports_free client (generateSlug baseName) k) \<Longrightarrow>
   generateUniqueSlug client baseName =
   generateUniqueSlug_while client baseName (candidate (generateSlug baseName) n) False (Suc n)
     (attempts (generateSlug baseName) (Suc n))"
proof (induction n)
  case 0
  then show ?case
    by (simp add: generateUniqueSlug_unfold candidate_def)
next
  case (Suc n)
  then have "generateUniqueSlug client baseName =
    generateUniqueSlug_while client baseName (candidate (generateSlug baseName) n) False (Suc n)
      (attempts (generateSlug baseName) (Suc n))"
    by simp
  also have "\<dots> =
    generateUniqueSlug_while client baseName (candidate (generateSlug baseName) (Suc n))
      (reports_free client (generateSlug baseName) (Suc n)) (Suc (Suc n))
      (attempts (generateSlug baseName) (Suc (Suc n)))"
    by (rule loop_step) simp
  finally show ?case using Suc.prems by simp
qed

lemma my_button_fixed: "generateSlug (str ''my-button'') = str ''my-button''"
  by (simp add: slug_eval)

lemma decimal_digit: "n < 10 \<Longrightarrow> decimal n = [48 + n]"
  by (simp add: decimal.simps)

lemma str_eval:
  "str ''my-button'' = [109, 121, 45, 98, 117, 116, 116, 111, 110]"
  "str ''my-button-1'' = [109, 121, 45, 98, 117, 116, 116, 111, 110, 45, 49]"
  "str ''my-button-2'' = [109, 121, 45, 98, 117, 116, 116, 111, 110, 45, 50]"
  by (simp_all add: str_def)

text \<open>
  C1. For every base name and every behaviour of the oracle, the resolver asks the
  oracle about the base, then the base with the suffixes 1, 2, ... in this order and
  without a gap, and returns the first of them for which the oracle reports no existing
  match, never one that the oracle reported as existing. It returns a slug with a list
  of queries exactly when some attempt \<open>n\<close> is the first that the oracle reports free;
  the slug is that attempt and the queries are the attempts 0 to \<open>n\<close>. And as long as
  the oracle has not reported any of the attempts 0 to \<open>n\<close> free, the call is in its
  loop, having made exactly these attempts as queries, with \<open>n + 1\<close> as the next suffix.
\<close>

theorem generateUniqueSlug_first_free:
  "(generateUniqueSlug client baseName = Some (slug, qs) \<longleftrightarrow>
     (\<exists>n. (\<forall>k<n. \<not> reports_free client (generateSlug baseName) k) \<and>
          reports_free client (generateSlug baseName) n \<and>
          slug = candidate (generateSlug baseName) n \<and>
          qs = map (candidate (generateSlug baseName)) [0..<Suc n])) \<and>
   ((\<forall>k\<le>m. \<not> reports_free client (generateSlug baseName) k) \<longrightarrow>
      generateUniqueSlug client baseName =
      generateUniqueSlug_while client baseName (candidate (generateSlug baseName) m) False (Suc m)
        (map (candidate (generateSlug baseName)) [0..<Suc m]))"
proof (intro conjI impI iffI)
  assume "generateUniqueSlug client baseName = Some (slug, qs)"
  from generateUniqueSlug_sound [OF this]
  show "\<exists>n. (\<forall>k<n. \<not> reports_free client (generateSlug baseName) k) \<and>
        reports_free client (generateSlug baseName) n \<and>
        slug = candidate (generateSlug baseName) n \<and>
        qs = map (candidate (generateSlug baseName)) [0..<Suc n]"
    unfolding attempts_def .
next
  assume "\<exists>n. (\<forall>k<n. \<not> reports_free client (generateSlug baseName) k) \<and>
        reports_free client (generateSlug baseName) n \<and>
        slug = candidate (generateSlug baseName) n \<and>
        qs = map (candidate (generateSlug baseName)) [0..<Suc n]"
  then obtain n where n: "\<forall>k<n. \<not> reports_free client (generateSlug baseName) k"
    "reports_free client (generateSlug baseName) n"
    and r: "slug = candidate (generateSlug baseName) n"
    "qs = attempts (generateSlug baseName) (Suc n)"
    unfolding attempts_def by blast
  from generateUniqueSlug_found [OF n] r
  show "generateUniqueSlug client baseName = Some (slug, qs)" by simp
next
  assume "\<forall>k\<le>m. \<not> reports_free client (generateSlug baseName) k"
  from generateUniqueSlug_progress [OF this]
  show "generateUniqueSlug client baseName =
      generateUniqueSlug_while client baseName (candidate (generateSlug baseName) m) False (Suc m)
        (map (candidate (generateSlug baseName)) [0..<Suc m])"
    unfolding attempts_def .
qed

text \<open>
  The scenario of C1: \<^verbatim>\<open>my-button\<close> and \<^verbatim>\<open>my-button-1\<close> are taken, \<^verbatim>\<open>my-button-2\<close> is
  free; the resolver returns \<^verbatim>\<open>my-button-2\<close> after exactly three queries.
\<close>

theorem generateUniqueSlug_first_free_witness:
  "generateUniqueSlug scenario_oracle (str ''my-button'') =
   Some (str ''my-button-2'', [str ''my-button'', str ''my-button-1'', str ''my-button-2''])"
proof -
  let ?b = "str ''my-button''"
  have c: "candidate ?b 0 = str ''my-button''" "candidate ?b (Suc 0) = str ''my-button-1''"
    "candidate ?b (Suc (Suc 0)) = str ''my-button-2''"
    by (simp_all add: candidate_def decimal_digit str_def hyphen_def)
  have f0: "\<not> reports_free scenario_oracle ?b 0"
    unfolding reports_free_def c scenario_oracle_def
    by (simp add: no_existing_match_def taken_def)
  have f1: "\<not> reports_free scenario_oracle ?b (Suc 0)"
    unfolding reports_free_def c scenario_oracle_def
    by (simp add: no_existing_match_def taken_def)
  have f2: "reports_free scenario_oracle ?b (Suc (Suc 0))"
    unfolding reports_free_def c scenario_oracle_def
    by (simp add: no_existing_match_def free_def str_eval)
  have "\<forall>k<Suc (Suc 0). \<not> reports_free scenario_oracle ?b k"
    using f0 f1 by (simp add: less_Suc_eq)
  moreover have "map (candidate ?b) [0..<Suc (Suc (Suc 0))] =
      [str ''my-button'', str ''my-button-1'', str ''my-button-2'']"
    by (simp add: upt_rec c)
  ultimately have "\<exists>n. (\<forall>k<n. \<not> reports_free scenario_oracle ?b k) \<and>
        reports_free scenario_oracle ?b n \<and>
        str ''my-button-2'' = candidate ?b n \<and>
        [str ''my-button'', str ''my-button-1'', str ''my-button-2''] =
          map (candidate ?b) [0..<Suc n]"
    using f2 c(3) by (intro exI [of _ "Suc (Suc 0)"]) (simp only: simp_thms)
  then show ?thesis
    unfolding generateUniqueSlug_first_free [of scenario_oracle "str ''my-button''"
        "str ''my-button-2''" "[str ''my-button'', str ''my-button-1'', str ''my-button-2'']",
        THEN conjunct1]
      my_button_fixed .
qed


lemma taken_first_free:
  "reports_free (taken_first n) base k \<longleftrightarrow> n \<le> k"
  by (auto simp: reports_free_def taken_first_def no_existing_match_def taken_def free_def)

lemma always_taken_never_free: "\<not> reports_free always_taken base k"
  by (simp add: reports_free_def always_taken_def no_existing_match_def taken_def)

lemma always_unavailable_never_free: "\<not> reports_free always_unavailable base k"
  by (simp add: reports_free_def always_unavailable_def no_existing_match_def unavailable_def)

lemma decimal_60: "decimal 60 = str ''60''"
  by (simp add: decimal.simps [of 60] decimal.simps [of 6] str_def)

text \<open>
  C2, as stated: the loop is bounded, and with an oracle that always reports taken the
  resolver stops after as many queries as the bound allows (50, say) and fails. There is
  no bound: against that oracle the call never returns, and when the first 60 queries
  are answered taken it makes 61 queries and returns the candidate with suffix 60.
\<close>

theorem generateUniqueSlug_bound_counterexample:
  "generateUniqueSlug always_taken (str ''my-button'') = None \<and>
   generateUniqueSlug (taken_first 60) (str ''my-button'') =
     Some (str ''my-button-60'', attempts (str ''my-button'') 61) \<and>
   length (attempts (str ''my-button'') 61) = 61"
proof -
  have "generateUniqueSlug always_taken (str ''my-button'') = None"
    by (rule generateUniqueSlug_never) (simp add: always_taken_never_free)
  moreover have "generateUniqueSlug (taken_first 60) (str ''my-button'') =
      Some (candidate (generateSlug (str ''my-button'')) 60,
            attempts (generateSlug (str ''my-button'')) (Suc 60))"
    by (rule generateUniqueSlug_found) (simp_all add: taken_first_free)
  moreover have "candidate (str ''my-button'') 60 = str ''my-button-60''"
    by (simp add: candidate_def decimal_60) (simp add: str_def hyphen_def)
  ultimately show ?thesis
    by (simp add: my_button_fixed)
qed

text \<open>
  C2, amended. The suffix-probing loop has no retry bound: the resolver returns only
  when the oracle reports a candidate free, after however many queries that takes, and
  it never returns exactly when the oracle reports none of the attempts free. It has no
  outcome that is a failure.
\<close>

theorem generateUniqueSlug_unbounded:
  "(generateUniqueSlug client baseName = None \<longleftrightarrow>
      (\<forall>k. \<not> reports_free client (generateSlug baseName) k)) \<and>
   ((\<forall>k<n. \<not> reports_free client (generateSlug baseName) k) \<and>
      reports_free client (generateSlug baseName) n \<longrightarrow>
    (\<exists>slug qs. generateUniqueSlug client baseName = Some (slug, qs) \<and> length qs = Suc n))"
proof (intro conjI impI)
  show "generateUniqueSlug client baseName = None \<longleftrightarrow>
      (\<forall>k. \<not> reports_free client (generateSlug baseName) k)"
    by (rule generateUniqueSlug_None_iff)
next
  assume "(\<forall>k<n. \<not> reports_free client (generateSlug baseName) k) \<and>
      reports_free client (generateSlug baseName) n"
  then have "generateUniqueSlug client baseName =
      Some (candidate (generateSlug baseName) n, attempts (generateSlug baseName) (Suc n))"
    by (intro generateUniqueSlug_found) simp_all
  then show "\<exists>slug qs. generateUniqueSlug client baseName = Some (slug, qs) \<and> length qs = Suc n"
    by simp
qed

theorem generateUniqueSlug_unbounded_witness:
  "generateUniqueSlug always_unavailable (str ''My Button!!'') = None \<and>
   (\<exists>slug qs. generateUniqueSlug (taken_first 50) (str ''My Button!!'') = Some (slug, qs) \<and>
      length qs = 51)"
proof -
  have "\<forall>k. \<not> reports_free always_unavailable (generateSlug (str ''My Button!!'')) k"
    by (simp add: always_unavailable_never_free)
  then have a: "generateUniqueSlug always_unavailable (str ''My Button!!'') = None"
    by (rule iffD2 [OF generateUniqueSlug_unbounded [THEN conjunct1]])
  have "(\<forall>k<50. \<not> reports_free (taken_first 50) (generateSlug (str ''My Button!!'')) k) \<and>
      reports_free (taken_first 50) (generateSlug (str ''My Button!!'')) 50"
    by (simp add: taken_first_free)
  then have "\<exists>slug qs. generateUniqueSlug (taken_first 50) (str ''My Button!!'') = Some (slug, qs) \<and>
      length qs = Suc 50"
    by (rule mp [OF generateUniqueSlug_unbounded [THEN conjunct2]])
  with a show ?thesis by simp
qed


lemma checkSlug_invalid:
  "\<not> isValidSlug slug \<Longrightarrow>
   checkSlug client slug (st, qs) =
     (\<lparr>slugAvailable = Some False, slugChecking = False,
       slugError = Some (str ''Invalid slug format'')\<rparr>, qs)"
  by (cases st) (simp add: checkSlug_def checkSlug_begin_def)

lemma checkSlug_valid:
  "isValidSlug slug \<Longrightarrow>
   checkSlug client slug (st, qs) =
     (\<lparr>slugAvailable = Some (checkSlugUnique_settle (client qs slug)), slugChecking = False,
       slugError = (if checkSlugUnique_settle (client qs slug) then None
                    else Some (str ''This slug is already taken''))\<rparr>,
      qs @ [slug])"
  by (cases st) (simp add: checkSlug_def checkSlug_begin_def checkSlug_resume_def checkSlugUnique_def)

lemma settle_error: "error r \<noteq> None \<Longrightarrow> checkSlugUnique_settle r = False"
  by (simp add: checkSlugUnique_settle_def)

lemma attempts_inj: "attempts base m = attempts base n \<Longrightarrow> m = n"
proof -
  assume "attempts base m = attempts base n"
  then have "length (attempts base m) = length (attempts base n)"
    by (rule arg_cong)
  then show "m = n" by (simp only: length_attempts)
qed

text \<open>
  C3, as stated: a failed query reaches the caller as a condition of its own and is
  never treated as "taken". A failed query and a query that finds a row get the same
  answer from \<open>checkSlugUnique\<close>; after a failure the checker reports the slug as
  already taken, and the resolver goes on to the next suffix.
\<close>

theorem oracle_failure_counterexample:
  "checkSlugUnique always_unavailable (str ''my-button'') [] =
     checkSlugUnique always_taken (str ''my-button'') [] \<and>
   fst (checkSlug always_unavailable (str ''my-button'') (initial_atoms, [])) =
     \<lparr>slugAvailable = Some False, slugChecking = False,
      slugError = Some (str ''This slug is already taken'')\<rparr> \<and>
   generateUniqueSlug unavailable_once (str ''my-button'') =
     Some (str ''my-button-1'', [str ''my-button'', str ''my-button-1''])"
proof -
  have v: "isValidSlug (str ''my-button'')"
    by (simp add: slug_eval)
  have a: "checkSlugUnique always_unavailable (str ''my-button'') [] =
     checkSlugUnique always_taken (str ''my-button'') []"
    by (simp add: checkSlugUnique_def checkSlugUnique_settle_def always_unavailable_def
          always_taken_def unavailable_def taken_def)
  have b: "fst (checkSlug always_unavailable (str ''my-button'') (initial_atoms, [])) =
     \<lparr>slugAvailable = Some False, slugChecking = False,
      slugError = Some (str ''This slug is already taken'')\<rparr>"
    by (simp add: checkSlug_valid [OF v] checkSlugUnique_settle_def always_unavailable_def
          unavailable_def)
  have "\<forall>k<Suc 0. \<not> reports_free unavailable_once (generateSlug (str ''my-button'')) k"
    by (simp add: reports_free_def unavailable_once_def attempts_def no_existing_match_def
          unavailable_def)
  moreover have "reports_free unavailable_once (generateSlug (str ''my-button'')) (Suc 0)"
    by (simp add: reports_free_def unavailable_once_def attempts_def no_existing_match_def
          free_def)
  ultimately have "generateUniqueSlug unavailable_once (str ''my-button'') =
      Some (candidate (generateSlug (str ''my-button'')) (Suc 0),
            attempts (generateSlug (str ''my-button'')) (Suc (Suc 0)))"
    by (rule generateUniqueSlug_found)
  moreover have "candidate (str ''my-button'') (Suc 0) = str ''my-button-1''"
    by (simp add: candidate_def decimal_digit str_def hyphen_def)
  moreover have "attempts (str ''my-button'') (Suc (Suc 0)) =
      [str ''my-button'', candidate (str ''my-button'') (Suc 0)]"
    by (simp add: attempts_def candidate_def)
  ultimately have "generateUniqueSlug unavailable_once (str ''my-button'') =
     Some (str ''my-button-1'', [str ''my-button'', str ''my-button-1''])"
    by (simp add: my_button_fixed)
  with a b show ?thesis by simp
qed

text \<open>
  C3, amended. For every candidate, if the oracle query fails, \<open>checkSlugUnique\<close>
  answers false, the answer it gives for a taken candidate, and no other condition
  reaches the caller: the checker sets available to false with the error
  \<^verbatim>\<open>This slug is already taken\<close>, and the resolver does not return that candidate.
\<close>

theorem oracle_failure_is_taken:
  "(error (client qs slug) \<noteq> None \<longrightarrow>
      checkSlugUnique client slug qs = (False, qs @ [slug]) \<and>
      (isValidSlug slug \<longrightarrow>
         checkSlug client slug (st, qs) =
           (\<lparr>slugAvailable = Some False, slugChecking = False,
             slugError = Some (str ''This slug is already taken'')\<rparr>, qs @ [slug]))) \<and>
   (error (client (attempts (generateSlug baseName) k) (candidate (generateSlug baseName) k)) \<noteq> None
      \<longrightarrow> generateUniqueSlug client baseName \<noteq>
            Some (candidate (generateSlug baseName) k, attempts (generateSlug baseName) (Suc k)))"
proof (intro conjI impI)
  assume "error (client qs slug) \<noteq> None"
  then show "checkSlugUnique client slug qs = (False, qs @ [slug])"
    by (simp add: checkSlugUnique_def settle_error)
next
  assume "error (client qs slug) \<noteq> None" and "isValidSlug slug"
  then show "checkSlug client slug (st, qs) =
           (\<lparr>slugAvailable = Some False, slugChecking = False,
             slugError = Some (str ''This slug is already taken'')\<rparr>, qs @ [slug])"
    by (simp add: checkSlug_valid settle_error)
next
  let ?base = "generateSlug baseName"
  assume e: "error (client (attempts ?base k) (candidate ?base k)) \<noteq> None"
  then have nf: "\<not> reports_free client ?base k"
    by (simp add: reports_free_def no_existing_match_def)
  show "generateUniqueSlug client baseName \<noteq> Some (candidate ?base k, attempts ?base (Suc k))"
  proof
    assume "generateUniqueSlug client baseName = Some (candidate ?base k, attempts ?base (Suc k))"
    from generateUniqueSlug_sound [OF this] obtain n where
      "reports_free client ?base n" and "attempts ?base (Suc k) = attempts ?base (Suc n)"
      by blast
    with attempts_inj [of ?base "Suc k" "Suc n"] nf show False by simp
  qed
qed

theorem oracle_failure_is_taken_witness:
  "checkSlugUnique always_unavailable (str ''my-button'') [] = (False, [str ''my-button'']) \<and>
   checkSlug always_unavailable (str ''my-button'') (initial_atoms, []) =
     (\<lparr>slugAvailable = Some False, slugChecking = False,
       slugError = Some (str ''This slug is already taken'')\<rparr>, [str ''my-button'']) \<and>
   generateUniqueSlug always_unavailable (str ''my-button'') \<noteq>
     Some (str ''my-button'', [str ''my-button''])"
proof -
  have e: "error (always_unavailable [] (str ''my-button'')) \<noteq> None"
    by (simp add: always_unavailable_def unavailable_def)
  have v: "isValidSlug (str ''my-button'')"
    by (simp add: slug_eval)
  note t = oracle_failure_is_taken [of always_unavailable "[]" "str ''my-button''" initial_atoms
      "str ''my-button''" 0]
  have a: "checkSlugUnique always_unavailable (str ''my-button'') [] = (False, [] @ [str ''my-button''])"
    using t [THEN conjunct1, THEN mp, OF e] by (rule conjunct1)
  have b: "checkSlug always_unavailable (str ''my-button'') (initial_atoms, []) =
     (\<lparr>slugAvailable = Some False, slugChecking = False,
       slugError = Some (str ''This slug is already taken'')\<rparr>, [] @ [str ''my-button''])"
    using t [THEN conjunct1, THEN mp, OF e, THEN conjunct2, THEN mp, OF v] .
  have "error (always_unavailable (attempts (generateSlug (str ''my-button'')) 0)
           (candidate (generateSlug (str ''my-button'')) 0)) \<noteq> None"
    by (simp add: always_unavailable_def unavailable_def)
  from t [THEN conjunct2, THEN mp, OF this]
  have c: "generateUniqueSlug always_unavailable (str ''my-button'') \<noteq>
     Some (str ''my-button'', [str ''my-button''])"
    by (simp add: my_button_fixed candidate_def attempts_def)
  from a b c show ?thesis by simp
qed


lemma candidate_empty_base: "candidate [] k = bare_suffix k"
  by (simp add: candidate_def bare_suffix_def)

lemma bare_suffix_invalid: "\<not> isValidSlug (bare_suffix k)"
  by (simp add: bare_suffix_def isValidSlug_def)

lemma decimal_2: "decimal 2 = str ''2''"
  by (simp add: decimal_digit str_def)

text \<open>
  C10. For every name without alphanumeric characters, so that its normalized base is
  empty, the candidates that the resolver submits to the oracle are the empty string and
  then \<^verbatim>\<open>-1\<close>, \<^verbatim>\<open>-2\<close>, ... (as long as none of the first of them is reported free, the
  call is in its loop with exactly these as the queries made), and whatever slug it
  returns is one of them and fails the validator: the resolver supplies no fallback
  base. The base is empty for every notion \<open>alphanumeric\<close> of letters and digits that
  counts the ASCII letters and digits and the letters U+0130 and U+212A among them; the
  rest is stated for every name whose base is empty.
\<close>

theorem generateUniqueSlug_empty_base:
  "((\<forall>c. ascii_alnum c \<or> c = 304 \<or> c = 8490 \<longrightarrow> alphanumeric c) \<and>
      \<not> list_ex alphanumeric baseName \<longrightarrow> generateSlug baseName = []) \<and>
   (generateSlug baseName = [] \<longrightarrow>
     (generateUniqueSlug client baseName = Some (slug, qs) \<longrightarrow>
        \<not> isValidSlug slug \<and> (\<exists>n. qs = map bare_suffix [0..<Suc n] \<and> slug = bare_suffix n)) \<and>
     ((\<forall>k\<le>m. \<not> reports_free client [] k) \<longrightarrow>
        generateUniqueSlug client baseName =
        generateUniqueSlug_while client baseName (bare_suffix m) False (Suc m)
          (map bare_suffix [0..<Suc m])))"
proof (intro conjI impI)
  assume "(\<forall>c. ascii_alnum c \<or> c = 304 \<or> c = 8490 \<longrightarrow> alphanumeric c) \<and>
      \<not> list_ex alphanumeric baseName"
  then have "\<not> list_ex kept baseName"
    by (auto simp: list_ex_iff kept_def)
  then show "generateSlug baseName = []"
    by (simp add: generateSlug_empty_iff)
next
  assume e: "generateSlug baseName = []"
    and "generateUniqueSlug client baseName = Some (slug, qs)"
  from generateUniqueSlug_sound [OF this(2)] obtain n where
    n: "slug = bare_suffix n" "qs = map bare_suffix [0..<Suc n]"
    unfolding e attempts_def candidate_empty_base [abs_def] by blast
  from n(1) show "\<not> isValidSlug slug"
    by (simp add: bare_suffix_invalid)
  from n show "\<exists>n. qs = map bare_suffix [0..<Suc n] \<and> slug = bare_suffix n"
    by blast
next
  assume e: "generateSlug baseName = []"
    and "\<forall>k\<le>m. \<not> reports_free client [] k"
  then have "\<forall>k\<le>m. \<not> reports_free client (generateSlug baseName) k"
    by simp
  from generateUniqueSlug_progress [OF this]
  show "generateUniqueSlug client baseName =
      generateUniqueSlug_while client baseName (bare_suffix m) False (Suc m)
        (map bare_suffix [0..<Suc m])"
    unfolding e attempts_def candidate_empty_base [abs_def] .
qed

theorem generateUniqueSlug_empty_base_witness:
  "generateSlug (str ''***'') = [] \<and>
   generateUniqueSlug (taken_first 2) (str ''***'') = Some (str ''-2'', [[], str ''-1'', str ''-2'']) \<and>
   isValidSlug (str ''-2'') = False"
proof -
  have h: "(\<forall>c. ascii_alnum c \<or> c = 304 \<or> c = 8490 \<longrightarrow> 48 \<le> c) \<and>
      \<not> list_ex (\<lambda>c. 48 \<le> c) (str ''***'')"
    by (auto simp: str_def ascii_alnum_def ascii_upper_def in_az09_def)
  note t = generateUniqueSlug_empty_base [of "\<lambda>c. 48 \<le> c" "str ''***''" "taken_first 2"
      "str ''-2''" "[[], str ''-1'', str ''-2'']" 0]
  from t [THEN conjunct1, THEN mp, OF h] have e: "generateSlug (str ''***'') = []" .
  have "generateUniqueSlug (taken_first 2) (str ''***'') =
      Some (candidate (generateSlug (str ''***'')) 2, attempts (generateSlug (str ''***'')) (Suc 2))"
    by (rule generateUniqueSlug_found) (simp_all add: taken_first_free)
  moreover have "candidate [] 2 = str ''-2''"
    by (simp add: candidate_def decimal_2) (simp add: str_def hyphen_def)
  moreover have "attempts [] (Suc 2) = [[], str ''-1'', str ''-2'']"
    by (simp add: attempts_def candidate_def upt_rec decimal_digit numeral_2_eq_2)
       (simp add: str_def hyphen_def)
  ultimately have r: "generateUniqueSlug (taken_first 2) (str ''***'') =
      Some (str ''-2'', [[], str ''-1'', str ''-2''])"
    by (simp add: e)
  from t [THEN conjunct2, THEN mp, OF e, THEN conjunct1, THEN mp, OF r]
  have "\<not> isValidSlug (str ''-2'')"
    by (rule conjunct1)
  with e r show ?thesis by simp
qed


section \<open>The availability checker\<close>

lemma form_run_snoc: "form_run (evs @ [e]) s = form_step e (form_run evs s)"
  by (simp add: form_run_def)

lemma checkSlug_resume_fields:
  "slugAvailable (checkSlug_resume u st) = Some u"
  "slugChecking (checkSlug_resume u st) = False"
  "slugError (checkSlug_resume u st) =
     (if u then slugError st else Some (str ''This slug is already taken''))"
  by (simp_all add: checkSlug_resume_def Let_def)

lemma valid_abc:
  "isValidSlug (str ''a'')" "isValidSlug (str ''ab'')" "isValidSlug (str ''abc'')"
  "isValidSlug (str ''my-button'')" "\<not> isValidSlug (str ''Invalid Slug!'')"
  by (simp_all add: slug_eval)

lemma form_step_Call_valid:
  "isValidSlug slug \<Longrightarrow>
   form_step (Call slug) s =
     \<lparr>shown = (shown s)\<lparr>slugChecking := True, slugError := None\<rparr>,
      issued = issued s @ [slug], outstanding = outstanding s @ [length (issued s)]\<rparr>"
  by (simp add: checkSlug_begin_def)

lemma form_step_Call_invalid:
  "\<not> isValidSlug slug \<Longrightarrow>
   form_step (Call slug) s =
     s\<lparr>shown := \<lparr>slugAvailable = Some False, slugChecking = False,
                 slugError = Some (str ''Invalid slug format'')\<rparr>\<rparr>"
  by (cases "shown s") (simp add: checkSlug_begin_def)

lemma form_step_Settle:
  "form_step (Settle i r) s =
     (if i \<in> set (outstanding s) then
        s\<lparr>shown := checkSlug_resume (checkSlugUnique_settle r) (shown s),
          outstanding := removeAll i (outstanding s)\<rparr>
      else s)"
  by simp

declare form_step.simps [simp del]

text \<open>
  C4. For every candidate that the validator rejects, the checker sets available to
  false and the error to \<^verbatim>\<open>Invalid slug format\<close> and makes no oracle query; for every
  candidate that the validator accepts it makes exactly one oracle query, for that
  candidate.
\<close>

theorem checkSlug_queries:
  "(\<not> isValidSlug slug \<longrightarrow>
      checkSlug client slug (st, qs) =
        (\<lparr>slugAvailable = Some False, slugChecking = False,
          slugError = Some (str ''Invalid slug format'')\<rparr>, qs) \<and>
      issued (form_step (Call slug) s) = issued s) \<and>
   (isValidSlug slug \<longrightarrow>
      snd (checkSlug client slug (st, qs)) = qs @ [slug] \<and>
      issued (form_step (Call slug) s) = issued s @ [slug])"
proof (intro conjI impI)
  assume invalid: "\<not> isValidSlug slug"
  then show "checkSlug client slug (st, qs) =
        (\<lparr>slugAvailable = Some False, slugChecking = False,
          slugError = Some (str ''Invalid slug format'')\<rparr>, qs)"
    by (rule checkSlug_invalid)
  from invalid show "issued (form_step (Call slug) s) = issued s"
    by (simp add: form_step_Call_invalid)
next
  assume valid: "isValidSlug slug"
  then show "snd (checkSlug client slug (st, qs)) = qs @ [slug]"
    by (simp add: checkSlug_valid)
  from valid show "issued (form_step (Call slug) s) = issued s @ [slug]"
    by (simp add: form_step_Call_valid)
qed

theorem checkSlug_queries_witness:
  "checkSlug always_free (str ''Invalid Slug!'') (initial_atoms, []) =
     (\<lparr>slugAvailable = Some False, slugChecking = False,
       slugError = Some (str ''Invalid slug format'')\<rparr>, []) \<and>
   snd (checkSlug always_free (str ''my-button'') (initial_atoms, [])) = [str ''my-button'']"
proof -
  have a: "checkSlug always_free (str ''Invalid Slug!'') (initial_atoms, []) =
     (\<lparr>slugAvailable = Some False, slugChecking = False,
       slugError = Some (str ''Invalid slug format'')\<rparr>, [])"
    using checkSlug_queries [of "str ''Invalid Slug!''" always_free initial_atoms "[]" initial_form,
        THEN conjunct1, THEN mp, OF valid_abc(5)]
    by (rule conjunct1)
  have b: "snd (checkSlug always_free (str ''my-button'') (initial_atoms, [])) = [] @ [str ''my-button'']"
    using checkSlug_queries [of "str ''my-button''" always_free initial_atoms "[]" initial_form,
        THEN conjunct2, THEN mp, OF valid_abc(4)]
    by (rule conjunct1)
  from a b show ?thesis by simp
qed

text \<open>
  C5, as stated: whatever the order in which the answers arrive, only the answer to the
  query issued last is ever applied to the state. Three candidates are typed; the answer
  to the last one (free) arrives first and the late answer to the first one (taken)
  arrives after it: the state then says that the slug is taken.
\<close>

theorem stale_response_counterexample:
  "issued (form_run [Call (str ''a''), Call (str ''ab''), Call (str ''abc''),
       Settle 2 free, Settle 0 taken] initial_form) = [str ''a'', str ''ab'', str ''abc''] \<and>
   shown (form_run [Call (str ''a''), Call (str ''ab''), Call (str ''abc''),
       Settle 2 free] initial_form) =
     \<lparr>slugAvailable = Some True, slugChecking = False, slugError = None\<rparr> \<and>
   shown (form_run [Call (str ''a''), Call (str ''ab''), Call (str ''abc''),
       Settle 2 free, Settle 0 taken] initial_form) =
     \<lparr>slugAvailable = Some False, slugChecking = False,
      slugError = Some (str ''This slug is already taken'')\<rparr>"
  by (simp add: form_run_def form_step_Call_valid form_step_Settle valid_abc initial_form_def
        initial_atoms_def checkSlug_resume_def checkSlugUnique_settle_def free_def taken_def)

text \<open>
  C5, amended. Every answer is applied to the state when it arrives, whichever query it
  answers: after the answer to any query that is still outstanding, available is the
  verdict on that answer, checking is false, and the error is the taken-message for a
  negative verdict and what it was before for a positive one. The state shows the answer
  that arrived last, not the answer to the query issued last.
\<close>

theorem last_response_wins:
  "i \<in> set (outstanding (form_run evs s)) \<longrightarrow>
     slugAvailable (shown (form_run (evs @ [Settle i r]) s)) = Some (checkSlugUnique_settle r) \<and>
     slugChecking (shown (form_run (evs @ [Settle i r]) s)) = False \<and>
     slugError (shown (form_run (evs @ [Settle i r]) s)) =
       (if checkSlugUnique_settle r then slugError (shown (form_run evs s))
        else Some (str ''This slug is already taken''))"
proof
  assume "i \<in> set (outstanding (form_run evs s))"
  then have "shown (form_step (Settle i r) (form_run evs s)) =
      checkSlug_resume (checkSlugUnique_settle r) (shown (form_run evs s))"
    by (simp add: form_step_Settle)
  then have "shown (form_run (evs @ [Settle i r]) s) =
      checkSlug_resume (checkSlugUnique_settle r) (shown (form_run evs s))"
    by (simp only: form_run_snoc)
  then show "slugAvailable (shown (form_run (evs @ [Settle i r]) s)) =
       Some (checkSlugUnique_settle r) \<and>
     slugChecking (shown (form_run (evs @ [Settle i r]) s)) = False \<and>
     slugError (shown (form_run (evs @ [Settle i r]) s)) =
       (if checkSlugUnique_settle r then slugError (shown (form_run evs s))
        else Some (str ''This slug is already taken''))"
    by (simp only: checkSlug_resume_fields simp_thms)
qed

theorem last_response_wins_witness:
  "slugAvailable (shown (form_run ([Call (str ''a''), Call (str ''ab'')] @ [Settle 0 taken])
       initial_form)) = Some False \<and>
   slugChecking (shown (form_run ([Call (str ''a''), Call (str ''ab'')] @ [Settle 0 taken])
       initial_form)) = False \<and>
   outstanding (form_run ([Call (str ''a''), Call (str ''ab'')] @ [Settle 0 taken])
       initial_form) = [1]"
proof -
  have o: "outstanding (form_run [Call (str ''a''), Call (str ''ab'')] initial_form) = [0, 1]"
    by (simp add: form_run_def form_step_Call_valid valid_abc initial_form_def)
  then have "0 \<in> set (outstanding (form_run [Call (str ''a''), Call (str ''ab'')] initial_form))"
    by simp
  from last_response_wins [of 0 "[Call (str ''a''), Call (str ''ab'')]" initial_form taken,
      THEN mp, OF this]
  have "slugAvailable (shown (form_run ([Call (str ''a''), Call (str ''ab'')] @ [Settle 0 taken])
       initial_form)) = Some (checkSlugUnique_settle taken) \<and>
    slugChecking (shown (form_run ([Call (str ''a''), Call (str ''ab'')] @ [Settle 0 taken])
       initial_form)) = False"
    by blast
  moreover have "checkSlugUnique_settle taken = False"
    by (simp add: checkSlugUnique_settle_def taken_def)
  moreover have "outstanding (form_run ([Call (str ''a''), Call (str ''ab'')] @ [Settle 0 taken])
       initial_form) = [1]"
    by (simp add: form_run_def form_step_Call_valid form_step_Settle valid_abc initial_form_def)
  ultimately show ?thesis by simp
qed

text \<open>
  C6, as stated: a check run from one form instance never changes the state that
  another instance sees. Instance 1 checks an invalid slug; instance 2, which saw no
  error before, now sees the error of that check.
\<close>

theorem shared_atoms_counterexample:
  "slugError (useComponentSlug 2 initial_atoms) = None \<and>
   slugError (useComponentSlug 2
      (fst (instance_checkSlug 1 always_free (str ''Invalid Slug!'') (initial_atoms, [])))) =
     Some (str ''Invalid slug format'')"
  by (simp add: useComponentSlug_def instance_checkSlug_def checkSlug_invalid valid_abc
        initial_atoms_def)

text \<open>
  C6, amended. The three atoms are shared by all form instances: after a check run from
  any instance, every instance sees the state that this check has written, the same as
  the instance that ran it.
\<close>

theorem instances_share_atoms:
  "useComponentSlug i (fst (instance_checkSlug j client slug (store, qs))) =
     fst (checkSlug client slug (store, qs)) \<and>
   useComponentSlug i (fst (instance_checkSlug j client slug (store, qs))) =
     useComponentSlug j (fst (instance_checkSlug j client slug (store, qs)))"
proof -
  have same: "useComponentSlug k store' = store'" for k and store' :: atoms
    by (simp add: useComponentSlug_def)
  have "fst (instance_checkSlug j client slug (store, qs)) = fst (checkSlug client slug (store, qs))"
    by (simp add: instance_checkSlug_def)
  then show ?thesis by (simp only: same simp_thms)
qed

theorem instances_share_atoms_witness:
  "useComponentSlug 2
     (fst (instance_checkSlug 1 always_taken (str ''my-button'') (initial_atoms, []))) =
   \<lparr>slugAvailable = Some False, slugChecking = False,
    slugError = Some (str ''This slug is already taken'')\<rparr>"
proof -
  have "fst (checkSlug always_taken (str ''my-button'') (initial_atoms, [])) =
     \<lparr>slugAvailable = Some False, slugChecking = False,
      slugError = Some (str ''This slug is already taken'')\<rparr>"
    by (simp add: checkSlug_valid valid_abc checkSlugUnique_settle_def always_taken_def taken_def)
  with instances_share_atoms [of 2 1 always_taken "str ''my-button''" initial_atoms "[]",
      THEN conjunct1]
  show ?thesis by (rule trans)
qed

end
